theory Spec2Isabelle
  imports Main "HOL-Library.Word" "HOL-Library.Product_Lexorder"
begin

unbundle bit_operations_syntax

section \<open>Data model\<close>

text \<open>
  The matchmaking core of mod-arena-3v3-solo-queue: \<^verbatim>\<open>MatchmakingComposer\<close> (candidate
  selection and the exhaustive team split) and \<^verbatim>\<open>Solo3v3::EnumerateCombinations\<close>.

  Integer types. Ids, ratings, timestamps, timers and the class mask are \<^verbatim>\<open>uint32_t\<close>
  in the source and 32-bit words here, so \<open>joinTime c + allDpsTimer\<close> wraps as it does in
  the source; the class id is \<^verbatim>\<open>uint8_t\<close>. The team size, vector sizes and vector
  indices (\<^verbatim>\<open>uint32_t\<close> and \<^verbatim>\<open>size_t\<close> in the source) are natural numbers: every
  index the source computes is bounded by the size of a vector, and no size or index
  expression of the source wraps as long as the team size and the vectors stay below
  \<open>2 ^ 31\<close>, which is the range the model covers. The rating sums are \<^verbatim>\<open>int64_t\<close>
  in the source and integers here (a sum of fewer than \<open>2 ^ 31\<close> ratings fits).
\<close>

type_synonym u8 = "8 word"
type_synonym u32 = "32 word"

datatype PlayerRole = DPS | HEALER

text \<open>
  \<^verbatim>\<open>struct QueuedCandidate\<close>. The field \<^verbatim>\<open>id\<close> is called \<open>id_c\<close> (\<open>id\<close> is the
  identity function of HOL). \<open>classId\<close> is the field of the class-stacking revision of the
  header; the functions of the first revision never read it.
\<close>

record QueuedCandidate =
  id_c :: u32
  role :: PlayerRole
  mmr :: u32
  joinTime :: u32
  classId :: u8

section \<open>Phase 2: candidate selection\<close>

text \<open>
  \<^verbatim>\<open>MatchmakingComposer::SelectCandidates\<close> of \<^verbatim>\<open>src/MatchmakingComposer.h\<close>. The
  out-parameters \<^verbatim>\<open>selected\<close> and \<^verbatim>\<open>allDpsMatch\<close> are passed in with the values the
  caller left in them and returned with the function's result:
  \<open>(returned value, selected, allDpsMatch)\<close>. The two role buckets are the two filters
  of the candidate list; \<open>take k xs\<close> is the loop that pushes \<open>xs[0], ..., xs[k - 1]\<close>,
  which the source runs only when \<open>xs\<close> has at least \<open>k\<close> entries.
\<close>

definition SelectCandidates ::
  "QueuedCandidate list \<Rightarrow> nat \<Rightarrow> bool \<Rightarrow> u32 \<Rightarrow> u32 \<Rightarrow>
   QueuedCandidate list \<Rightarrow> bool \<Rightarrow> bool \<times> QueuedCandidate list \<times> bool" where
  "SelectCandidates candidates teamSize filterTalents allDpsTimer now selected allDpsMatch =
    (let selected = []; allDpsMatch = False in
     if length candidates < teamSize * 2 then (False, selected, allDpsMatch)
     else if \<not> filterTalents then (True, take (teamSize * 2) candidates, allDpsMatch)
     else
       let healers = filter (\<lambda>c. role c = HEALER) candidates;
           dps = filter (\<lambda>c. role c \<noteq> HEALER) candidates;
           healersNeeded = (if teamSize > 1 then 2 else 0);
           dpsNeeded = teamSize * 2 - healersNeeded
       in
         if healersNeeded \<le> length healers \<and> dpsNeeded \<le> length dps then
           (True, selected @ take healersNeeded healers @ take dpsNeeded dps, allDpsMatch)
         else if healers = [] then
           (let timedDps = filter (\<lambda>c. joinTime c + allDpsTimer \<le> now) dps in
            if teamSize * 2 \<le> length timedDps
            then (True, selected @ take (teamSize * 2) timedDps, True)
            else (False, selected, allDpsMatch))
         else (False, selected, allDpsMatch))"

text \<open>
  The same function in the later revision of the header (the one with
  \<^verbatim>\<open>singleHealerDpsTimer\<close> and class stacking): one more branch, for exactly one healer.
\<close>

definition SelectCandidates_ext ::
  "QueuedCandidate list \<Rightarrow> nat \<Rightarrow> bool \<Rightarrow> u32 \<Rightarrow> u32 \<Rightarrow> u32 \<Rightarrow>
   QueuedCandidate list \<Rightarrow> bool \<Rightarrow> bool \<times> QueuedCandidate list \<times> bool" where
  "SelectCandidates_ext candidates teamSize filterTalents allDpsTimer singleHealerDpsTimer now
      selected allDpsMatch =
    (let selected = []; allDpsMatch = False in
     if length candidates < teamSize * 2 then (False, selected, allDpsMatch)
     else if \<not> filterTalents then (True, take (teamSize * 2) candidates, allDpsMatch)
     else
       let healers = filter (\<lambda>c. role c = HEALER) candidates;
           dps = filter (\<lambda>c. role c \<noteq> HEALER) candidates;
           healersNeeded = (if teamSize > 1 then 2 else 0);
           dpsNeeded = teamSize * 2 - healersNeeded
       in
         if healersNeeded \<le> length healers \<and> dpsNeeded \<le> length dps then
           (True, selected @ take healersNeeded healers @ take dpsNeeded dps, allDpsMatch)
         else if healers = [] then
           (let timedDps = filter (\<lambda>c. joinTime c + allDpsTimer \<le> now) dps in
            if teamSize * 2 \<le> length timedDps
            then (True, selected @ take (teamSize * 2) timedDps, True)
            else (False, selected, allDpsMatch))
         else if length healers = 1 then
           (let timedDps = filter (\<lambda>c. joinTime c + singleHealerDpsTimer \<le> now) dps in
            if teamSize * 2 \<le> length timedDps
            then (True, selected @ take (teamSize * 2) timedDps, True)
            else (False, selected, allDpsMatch))
         else (False, selected, allDpsMatch))"

text \<open>
  Aggregate initialisation of a candidate, \<^verbatim>\<open>{id, role, mmr, joinTime, classId}\<close>, as the
  unit tests write it.
\<close>

definition mk :: "u32 \<Rightarrow> PlayerRole \<Rightarrow> u32 \<Rightarrow> u32 \<Rightarrow> u8 \<Rightarrow> QueuedCandidate" where
  "mk i r m t c = \<lparr>id_c = i, role = r, mmr = m, joinTime = t, classId = c\<rparr>"

section \<open>Phase 3: the exhaustive team split\<close>

text \<open>
  \<^verbatim>\<open>struct TeamSplitResult\<close>, and the three by-reference results of the search
  (\<^verbatim>\<open>bestTeam1\<close>, \<^verbatim>\<open>haveBest\<close>, \<^verbatim>\<open>bestDiff\<close>) as one record. \<^verbatim>\<open>mmrDiff\<close> and
  \<^verbatim>\<open>bestDiff\<close> are \<^verbatim>\<open>uint64_t\<close> values that hold the absolute value of a difference of
  two rating sums.
\<close>

record TeamSplitResult =
  valid :: bool
  team1Indices :: "nat list"
  team2Indices :: "nat list"
  mmrDiff :: nat

record best =
  bestTeam1 :: "nat list"
  haveBest :: bool
  bestDiff :: nat

text \<open>
  The loop that builds the complement of an increasing index vector within \<open>[0, n)\<close>:
  \<^verbatim>\<open>for (i = 0; i < n; ++i) { if (ci < lim && combo[ci] == i) { ++ci; continue; } team2.push_back(i); }\<close>.
  \<open>lim\<close> is \<^verbatim>\<open>teamSize\<close> in \<^verbatim>\<open>Enumerate\<close> and \<^verbatim>\<open>bestTeam1.size()\<close> in
  \<^verbatim>\<open>FindBestTeamSplit\<close>; \<open>combo ! ci\<close> is read only for \<open>ci < lim\<close>.
\<close>

fun complement_loop :: "nat list \<Rightarrow> nat \<Rightarrow> nat list \<Rightarrow> nat \<Rightarrow> nat list \<Rightarrow> nat list" where
  "complement_loop [] lim combo ci team2 = team2"
| "complement_loop (i # rest) lim combo ci team2 =
     (if ci < lim \<and> combo ! ci = i then complement_loop rest lim combo (ci + 1) team2
      else complement_loop rest lim combo ci (team2 @ [i]))"

definition complement :: "nat \<Rightarrow> nat \<Rightarrow> nat list \<Rightarrow> nat list" where
  "complement n lim combo = complement_loop [0..<n] lim combo 0 []"

text \<open>
  The healer count and the rating sum of a team, the two range-for loops of the source
  over a vector of indices into \<^verbatim>\<open>selected\<close>.
\<close>

definition count_healers :: "QueuedCandidate list \<Rightarrow> nat list \<Rightarrow> nat" where
  "count_healers selected team = length (filter (\<lambda>i. role (selected ! i) = HEALER) team)"

definition sum_mmr :: "QueuedCandidate list \<Rightarrow> nat list \<Rightarrow> int" where
  "sum_mmr selected team = sum_list (map (\<lambda>i. uint (mmr (selected ! i))) team)"

text \<open>
  \<^verbatim>\<open>MatchmakingComposer::Enumerate\<close> of \<^verbatim>\<open>src/MatchmakingComposer.h\<close>. \<open>Enumerate_leaf\<close>
  is the block under \<^verbatim>\<open>if (depth == teamSize)\<close>: each \<^verbatim>\<open>return\<close> before the score hands
  the search results back unchanged. The \<^verbatim>\<open>for\<close> loop
  \<^verbatim>\<open>for (i = start; i <= n - (teamSize - depth); ++i)\<close> is a fold over that index range.
  The vector \<^verbatim>\<open>combo\<close> and the search results are passed by reference in the source, so
  the function returns both: a recursive call sees the writes of the calls before it.
  \<^verbatim>\<open>FindBestTeamSplit\<close> is the only caller and starts at depth 0 on at least
  \<open>2 * teamSize\<close> candidates: at every call \<open>depth \<le> teamSize \<le> n\<close>, so neither
  subtraction of the loop bound goes below zero, and a leaf is reached only with
  \<open>teamSize\<close> indices below \<open>n\<close> in \<open>combo\<close>, so every read of \<^verbatim>\<open>selected\<close> is in range.
\<close>

definition Enumerate_leaf ::
  "nat list \<Rightarrow> QueuedCandidate list \<Rightarrow> nat \<Rightarrow> nat \<Rightarrow> bool \<Rightarrow> bool \<Rightarrow> best \<Rightarrow> best" where
  "Enumerate_leaf combo selected teamSize n filterTalents allDpsMatch b =
    (let team2 = complement n teamSize combo;
         h1 = count_healers selected combo;
         h2 = count_healers selected team2
     in
       if filterTalents \<and> allDpsMatch \<and> (h1 \<noteq> 0 \<or> h2 \<noteq> 0) then b
       else if filterTalents \<and> \<not> allDpsMatch \<and> (h1 \<noteq> 1 \<or> h2 \<noteq> 1) then b
       else
         let sum1 = sum_mmr selected combo;
             sum2 = sum_mmr selected team2;
             diff = nat (if sum1 > sum2 then sum1 - sum2 else sum2 - sum1)
         in
           if \<not> haveBest b \<or> diff < bestDiff b
           then \<lparr>bestTeam1 = combo, haveBest = True, bestDiff = diff\<rparr>
           else b)"

function Enumerate ::
  "nat \<Rightarrow> nat \<Rightarrow> nat list \<Rightarrow> QueuedCandidate list \<Rightarrow> nat \<Rightarrow> nat \<Rightarrow> bool \<Rightarrow> bool \<Rightarrow> best
   \<Rightarrow> nat list \<times> best" where
  "Enumerate start depth combo selected teamSize n filterTalents allDpsMatch b =
    (if depth = teamSize
     then (combo, Enumerate_leaf combo selected teamSize n filterTalents allDpsMatch b)
     else fold (\<lambda>i (combo', b').
                  Enumerate (i + 1) (depth + 1) (combo'[depth := i]) selected teamSize n
                    filterTalents allDpsMatch b')
            [start ..< Suc (n - (teamSize - depth))] (combo, b))"
  by pat_completeness auto
termination
  by (relation "measure (\<lambda>(start, depth, combo, selected, teamSize, n, rest). Suc n - start)")
    auto

text \<open>
  \<^verbatim>\<open>MatchmakingComposer::FindBestTeamSplit\<close>; \<open>replicate teamSize 0\<close> is
  \<^verbatim>\<open>std::vector<uint32_t> combo(teamSize)\<close>.
\<close>

definition FindBestTeamSplit ::
  "QueuedCandidate list \<Rightarrow> nat \<Rightarrow> bool \<Rightarrow> bool \<Rightarrow> TeamSplitResult" where
  "FindBestTeamSplit selected teamSize filterTalents allDpsMatch =
    (let result = \<lparr>valid = False, team1Indices = [], team2Indices = [], mmrDiff = 0\<rparr>;
         n = length selected
     in
       if n < teamSize * 2 then result
       else
         let (combo, b) = Enumerate 0 0 (replicate teamSize 0) selected teamSize n
                            filterTalents allDpsMatch
                            \<lparr>bestTeam1 = [], haveBest = False, bestDiff = 0\<rparr>
         in
           if \<not> haveBest b then result
           else \<lparr>valid = True, team1Indices = bestTeam1 b,
                 team2Indices = complement n (length (bestTeam1 b)) (bestTeam1 b),
                 mmrDiff = bestDiff b\<rparr>)"

subsection \<open>The revision with class stacking\<close>

text \<open>
  The later revision of the header adds \<^verbatim>\<open>ClassIdToMaskBit\<close>,
  \<^verbatim>\<open>HasClassStackingConflict\<close> and two parameters of \<^verbatim>\<open>Enumerate\<close> and
  \<^verbatim>\<open>FindBestTeamSplit\<close>; its functions carry the suffix \<open>_ext\<close> here.
  \<open>stacking_pair\<close> is the body of the inner loop of \<^verbatim>\<open>HasClassStackingConflict\<close> for
  one pair: true where the source executes \<^verbatim>\<open>return true\<close>, false where it goes on to
  the next pair (\<^verbatim>\<open>continue\<close>, or \<^verbatim>\<open>break\<close> out of the \<^verbatim>\<open>switch\<close>). The two nested
  loops over \<open>i < j\<close> are \<open>HasClassStackingConflict\<close> (outer) and \<open>conflict_with\<close> (inner).
\<close>

definition ClassIdToMaskBit :: "u8 \<Rightarrow> u32" where
  "ClassIdToMaskBit cls =
    (if 1 \<le> cls \<and> cls \<le> 9 then push_bit (unat cls - 1) 1
     else if cls = 11 then push_bit 10 1
     else 0)"

definition stacking_pair :: "QueuedCandidate \<Rightarrow> QueuedCandidate \<Rightarrow> u8 \<Rightarrow> u32 \<Rightarrow> bool" where
  "stacking_pair a b preventLevel classMask =
    (if classId a \<noteq> classId b then False
     else if classMask \<noteq> 0 \<and> classMask AND ClassIdToMaskBit (classId a) = 0 then False
     else
       let aIsMelee = (role a = DPS); aIsHealer = (role a = HEALER);
           bIsMelee = (role b = DPS); bIsHealer = (role b = HEALER)
       in
         if preventLevel = 1 then True
         else if preventLevel = 2 \<or> preventLevel = 3 \<or> preventLevel = 4
           then aIsMelee \<and> bIsMelee
         else if preventLevel = 5 \<or> preventLevel = 6
           then (aIsMelee \<or> aIsHealer) \<and> (bIsMelee \<or> bIsHealer)
         else False)"

fun conflict_with ::
  "QueuedCandidate \<Rightarrow> nat list \<Rightarrow> QueuedCandidate list \<Rightarrow> u8 \<Rightarrow> u32 \<Rightarrow> bool" where
  "conflict_with a [] pool preventLevel classMask = False"
| "conflict_with a (j # rest) pool preventLevel classMask =
     (if stacking_pair a (pool ! j) preventLevel classMask then True
      else conflict_with a rest pool preventLevel classMask)"

fun HasClassStackingConflict ::
  "nat list \<Rightarrow> QueuedCandidate list \<Rightarrow> u8 \<Rightarrow> u32 \<Rightarrow> bool" where
  "HasClassStackingConflict [] pool preventLevel classMask = False"
| "HasClassStackingConflict (i # rest) pool preventLevel classMask =
     (if conflict_with (pool ! i) rest pool preventLevel classMask then True
      else HasClassStackingConflict rest pool preventLevel classMask)"

definition Enumerate_ext_leaf ::
  "nat list \<Rightarrow> QueuedCandidate list \<Rightarrow> nat \<Rightarrow> nat \<Rightarrow> bool \<Rightarrow> bool \<Rightarrow> u8 \<Rightarrow> u32 \<Rightarrow> best
   \<Rightarrow> best" where
  "Enumerate_ext_leaf combo selected teamSize n filterTalents allDpsMatch
      preventClassStacking classStackMask b =
    (let team2 = complement n teamSize combo;
         h1 = count_healers selected combo;
         h2 = count_healers selected team2
     in
       if filterTalents \<and> allDpsMatch \<and> (h1 \<noteq> 0 \<or> h2 \<noteq> 0) then b
       else if filterTalents \<and> \<not> allDpsMatch \<and> (h1 \<noteq> 1 \<or> h2 \<noteq> 1) then b
       else if 0 < preventClassStacking
               \<and> (HasClassStackingConflict combo selected preventClassStacking classStackMask
                    \<or> HasClassStackingConflict team2 selected preventClassStacking classStackMask)
         then b
       else
         let sum1 = sum_mmr selected combo;
             sum2 = sum_mmr selected team2;
             diff = nat (if sum1 > sum2 then sum1 - sum2 else sum2 - sum1)
         in
           if \<not> haveBest b \<or> diff < bestDiff b
           then \<lparr>bestTeam1 = combo, haveBest = True, bestDiff = diff\<rparr>
           else b)"

function Enumerate_ext ::
  "nat \<Rightarrow> nat \<Rightarrow> nat list \<Rightarrow> QueuedCandidate list \<Rightarrow> nat \<Rightarrow> nat \<Rightarrow> bool \<Rightarrow> bool \<Rightarrow> u8 \<Rightarrow> u32
   \<Rightarrow> best \<Rightarrow> nat list \<times> best" where
  "Enumerate_ext start depth combo selected teamSize n filterTalents allDpsMatch
      preventClassStacking classStackMask b =
    (if depth = teamSize
     then (combo, Enumerate_ext_leaf combo selected teamSize n filterTalents allDpsMatch
                    preventClassStacking classStackMask b)
     else fold (\<lambda>i (combo', b').
                  Enumerate_ext (i + 1) (depth + 1) (combo'[depth := i]) selected teamSize n
                    filterTalents allDpsMatch preventClassStacking classStackMask b')
            [start ..< Suc (n - (teamSize - depth))] (combo, b))"
  by pat_completeness auto
termination
  by (relation "measure (\<lambda>(start, depth, combo, selected, teamSize, n, rest). Suc n - start)")
    auto

definition FindBestTeamSplit_ext ::
  "QueuedCandidate list \<Rightarrow> nat \<Rightarrow> bool \<Rightarrow> bool \<Rightarrow> u8 \<Rightarrow> u32 \<Rightarrow> TeamSplitResult" where
  "FindBestTeamSplit_ext selected teamSize filterTalents allDpsMatch
      preventClassStacking classStackMask =
    (let result = \<lparr>valid = False, team1Indices = [], team2Indices = [], mmrDiff = 0\<rparr>;
         n = length selected
     in
       if n < teamSize * 2 then result
       else
         let (combo, b) = Enumerate_ext 0 0 (replicate teamSize 0) selected teamSize n
                            filterTalents allDpsMatch preventClassStacking classStackMask
                            \<lparr>bestTeam1 = [], haveBest = False, bestDiff = 0\<rparr>
         in
           if \<not> haveBest b then result
           else \<lparr>valid = True, team1Indices = bestTeam1 b,
                 team2Indices = complement n (length (bestTeam1 b)) (bestTeam1 b),
                 mmrDiff = bestDiff b\<rparr>)"

subsection \<open>The production search\<close>








section \<open>The vocabulary of the specification\<close>

text \<open>
  A choice of team 1 is an increasing list of \<open>teamSize\<close> indices below \<open>n\<close>; \<open>others\<close> is
  its complement in increasing order. The two filters of the specification and the two
  scores of a partition are stated on the two teams. \<open>lex_before\<close> is the order in which
  increasing index combinations are enumerated.
\<close>

definition team_choice :: "nat \<Rightarrow> nat \<Rightarrow> nat list \<Rightarrow> bool" where
  "team_choice n teamSize team1 \<longleftrightarrow>
     length team1 = teamSize \<and> sorted_wrt (<) team1 \<and> set team1 \<subseteq> {0 ..< n}"

definition others :: "nat \<Rightarrow> nat list \<Rightarrow> nat list" where
  "others n team1 = filter (\<lambda>i. i \<notin> set team1) [0 ..< n]"

definition role_balance_ok ::
  "QueuedCandidate list \<Rightarrow> bool \<Rightarrow> bool \<Rightarrow> nat list \<Rightarrow> nat list \<Rightarrow> bool" where
  "role_balance_ok selected enforceRoles allDpsMatch team1 team2 =
    (enforceRoles \<longrightarrow>
      (if allDpsMatch
       then count_healers selected team1 = 0 \<and> count_healers selected team2 = 0
       else count_healers selected team1 = 1 \<and> count_healers selected team2 = 1))"

definition class_diversity_ok ::
  "QueuedCandidate list \<Rightarrow> u8 \<Rightarrow> u32 \<Rightarrow> nat list \<Rightarrow> nat list \<Rightarrow> bool" where
  "class_diversity_ok selected classStackLevel classMask team1 team2 =
    (0 < classStackLevel \<longrightarrow>
      \<not> HasClassStackingConflict team1 selected classStackLevel classMask \<and>
      \<not> HasClassStackingConflict team2 selected classStackLevel classMask)"

definition rating_gap :: "QueuedCandidate list \<Rightarrow> nat list \<Rightarrow> nat list \<Rightarrow> nat" where
  "rating_gap selected team1 team2 = nat \<bar>sum_mmr selected team1 - sum_mmr selected team2\<bar>"


definition lex_before :: "nat list \<Rightarrow> nat list \<Rightarrow> bool" where
  "lex_before xs ys = ord_class.lexordp xs ys"

text \<open>
  Pools of candidates used as examples.
\<close>

definition pool6 :: "QueuedCandidate list" where
  "pool6 = [mk 1 HEALER 2000 0 5, mk 2 HEALER 1000 0 7, mk 3 DPS 1500 0 1, mk 4 DPS 1500 0 4,
            mk 5 DPS 1500 0 8, mk 6 DPS 1500 0 9]"

definition pool3 :: "QueuedCandidate list" where
  "pool3 = [mk 1 DPS 1500 0 0, mk 2 DPS 1500 0 0, mk 3 DPS 1500 0 0]"

definition pool4 :: "QueuedCandidate list" where
  "pool4 = [mk 1 DPS 1500 0 1, mk 2 DPS 1500 0 1, mk 3 DPS 1500 0 1, mk 4 DPS 1500 0 1]"

section \<open>Auxiliary definitions of the proofs\<close>

text \<open>
  \<open>combs k lo n\<close> lists the increasing index lists of length \<open>k\<close> over \<open>[lo, n)\<close> in the order
  the recursion visits them; \<open>enum_gen\<close> is the recursion of the three enumerators with the
  leaf as a parameter; \<open>keep_better\<close> is one step of a search that keeps the first best
  element, and \<open>first_best\<close> is what such a search has found after a list of steps.
\<close>

fun combs :: "nat \<Rightarrow> nat \<Rightarrow> nat \<Rightarrow> nat list list" where
  "combs 0 lo n = [[]]"
| "combs (Suc k) lo n =
     concat (map (\<lambda>i. map ((#) i) (combs k (Suc i) n)) [lo ..< Suc (n - Suc k)])"

function enum_gen ::
  "(nat list \<Rightarrow> 'b \<Rightarrow> 'b) \<Rightarrow> nat \<Rightarrow> nat \<Rightarrow> nat list \<Rightarrow> nat \<Rightarrow> nat \<Rightarrow> 'b \<Rightarrow> nat list \<times> 'b" where
  "enum_gen leaf start depth combo teamSize n b =
    (if depth = teamSize then (combo, leaf combo b)
     else fold (\<lambda>i (combo', b'). enum_gen leaf (i + 1) (depth + 1) (combo'[depth := i]) teamSize n b')
            [start ..< Suc (n - (teamSize - depth))] (combo, b))"
  by pat_completeness auto
termination
  by (relation "measure (\<lambda>(leaf, start, depth, combo, teamSize, n, rest). Suc n - start)") auto

definition keep_better :: "('c \<Rightarrow> bool) \<Rightarrow> ('c \<Rightarrow> 'k::linorder) \<Rightarrow> 'c option \<Rightarrow> 'c \<Rightarrow> 'c option" where
  "keep_better ok key cur c =
     (if ok c \<and> (case cur of None \<Rightarrow> True | Some d \<Rightarrow> key c < key d) then Some c else cur)"

definition first_best :: "('c \<Rightarrow> bool) \<Rightarrow> ('c \<Rightarrow> 'k::linorder) \<Rightarrow> 'c list \<Rightarrow> 'c option \<Rightarrow> bool" where
  "first_best ok key cs r =
     (case r of
        None \<Rightarrow> \<forall>c \<in> set cs. \<not> ok c
      | Some d \<Rightarrow> \<exists>pre post. cs = pre @ d # post \<and> ok d
           \<and> (\<forall>c \<in> set pre. ok c \<longrightarrow> key d < key c)
           \<and> (\<forall>c \<in> set post. ok c \<longrightarrow> key d \<le> key c))"

declare Enumerate.simps [simp del]
declare Enumerate_ext.simps [simp del]
declare enum_gen.simps [simp del]

section \<open>Selection: the properties\<close>

lemma take_filter_earlier:
  assumes "distinct xs" "i < j" "j < length xs" "P (xs ! i)"
    and "xs ! j \<in> set (take k (filter P xs))"
  shows "xs ! i \<in> set (take k (filter P xs))"
  using assms
proof (induction xs arbitrary: i j k)
  case Nil
  then show ?case by simp
next
  case (Cons x xs)
  obtain j' where j: "j = Suc j'" using Cons.prems(2) by (cases j) auto
  have k: "k \<noteq> 0"
  proof
    assume "k = 0"
    then show False using Cons.prems(5) by simp
  qed
  then obtain k' where k': "k = Suc k'" by (cases k) auto
  show ?case
  proof (cases i)
    case 0
    then show ?thesis using Cons.prems k' by simp
  next
    case (Suc i')
    show ?thesis
    proof (cases "P x")
      case True
      have "xs ! j' \<noteq> x" using Cons.prems(1,3) j by auto
      then have "xs ! j' \<in> set (take k' (filter P xs))"
        using Cons.prems(5) True j k' by simp
      then have "xs ! i' \<in> set (take k' (filter P xs))"
        using Cons.IH [of i' j' k'] Cons.prems Suc j by simp
      then show ?thesis using True Suc k' by simp
    next
      case False
      then have "xs ! j' \<in> set (take k (filter P xs))"
        using Cons.prems(5) j by simp
      then have "xs ! i' \<in> set (take k (filter P xs))"
        using Cons.IH [of i' j' k] Cons.prems Suc j by simp
      then show ?thesis using False Suc by simp
    qed
  qed
qed

text \<open>Every success of the first revision is the same success of the later one.\<close>

lemma select_success_ext:
  assumes "SelectCandidates candidates teamSize True allDpsTimer now sel0 adm0 = (True, sel, adm)"
  shows "SelectCandidates_ext candidates teamSize True allDpsTimer oneHealerTimer now sel0 adm0
           = (True, sel, adm)"
  using assms
  by (auto simp: SelectCandidates_def SelectCandidates_ext_def Let_def split: if_splits)

text \<open>
  With the role rules on, a success is either the standard path (flag false: the first
  healers and the first DPS of the two buckets) or a fallback (flag true: the first
  \<open>2 * teamSize\<close> DPS whose timer has elapsed).
\<close>

lemma select_ext_success_cases:
  assumes "SelectCandidates_ext candidates teamSize True allDpsTimer oneHealerTimer now sel0 adm0
           = (True, sel, adm)"
  shows "(\<not> adm \<and> sel = take (if 1 < teamSize then 2 else 0) (filter (\<lambda>c. role c = HEALER) candidates)
                     @ take (teamSize * 2 - (if 1 < teamSize then 2 else 0))
                         (filter (\<lambda>c. role c \<noteq> HEALER) candidates))
       \<or> (adm \<and> sel = take (teamSize * 2)
             (filter (\<lambda>c. joinTime c +
                 (if filter (\<lambda>c. role c = HEALER) candidates = [] then allDpsTimer
                  else oneHealerTimer) \<le> now)
               (filter (\<lambda>c. role c \<noteq> HEALER) candidates)))"
  using assms
  by (auto simp: SelectCandidates_ext_def Let_def split: if_splits)



text \<open>
  Claim C10 (out-parameters on failure). Whenever \<open>SelectCandidates\<close> returns false,
  \<open>selected\<close> is empty and \<open>allDpsMatch\<close> is false, whatever the caller had left in
  them: both are reset at entry and written only on a path that returns true. It holds of
  both revisions.
\<close>

theorem select_failure_outputs:
  "(\<not> fst (SelectCandidates candidates teamSize filterTalents allDpsTimer now sel0 adm0)
      \<longrightarrow> SelectCandidates candidates teamSize filterTalents allDpsTimer now sel0 adm0
            = (False, [], False))
   \<and> (\<not> fst (SelectCandidates_ext candidates teamSize filterTalents allDpsTimer oneHealerTimer
                now sel0 adm0)
      \<longrightarrow> SelectCandidates_ext candidates teamSize filterTalents allDpsTimer oneHealerTimer
            now sel0 adm0 = (False, [], False))"
  by (simp add: SelectCandidates_def SelectCandidates_ext_def Let_def)

text \<open>
  Scenario 3 of the specification (one healer, five DPS), entered with a non-empty
  \<open>selected\<close> and a true \<open>allDpsMatch\<close>.
\<close>

theorem select_failure_outputs_witness:
  "\<not> fst (SelectCandidates
        [mk 1 HEALER 1500 0 0, mk 2 DPS 1500 0 0, mk 3 DPS 1500 0 0, mk 4 DPS 1500 0 0,
         mk 5 DPS 1500 0 0, mk 6 DPS 1500 0 0]
        3 True 60000 100000 [mk 9 DPS 1500 0 0] True)
   \<and> SelectCandidates
        [mk 1 HEALER 1500 0 0, mk 2 DPS 1500 0 0, mk 3 DPS 1500 0 0, mk 4 DPS 1500 0 0,
         mk 5 DPS 1500 0 0, mk 6 DPS 1500 0 0]
        3 True 60000 100000 [mk 9 DPS 1500 0 0] True = (False, [], False)"
proof -
  have h: "\<not> fst (SelectCandidates
        [mk 1 HEALER 1500 0 0, mk 2 DPS 1500 0 0, mk 3 DPS 1500 0 0, mk 4 DPS 1500 0 0,
         mk 5 DPS 1500 0 0, mk 6 DPS 1500 0 0]
        3 True 60000 100000 [mk 9 DPS 1500 0 0] True)"
    by (simp add: SelectCandidates_def mk_def)
  show ?thesis
    using h select_failure_outputs [of
        "[mk 1 HEALER 1500 0 0, mk 2 DPS 1500 0 0, mk 3 DPS 1500 0 0, mk 4 DPS 1500 0 0,
          mk 5 DPS 1500 0 0, mk 6 DPS 1500 0 0]"
        3 True 60000 100000 "[mk 9 DPS 1500 0 0]" True]
    by blast
qed



text \<open>
  Claim C8 (FIFO fairness). The role rules are on and the candidates are distinct
  (each has its own id). Candidate A stands before candidate B in the list, they have
  the same role, and A is eligible on the path taken (on a fallback: A's timer has
  elapsed). If the selection holds only one of the two, it holds A and not B. On the
  standard path (flag false) the selection is the first \<open>healersNeeded\<close> healers followed
  by the first \<open>dpsNeeded\<close> DPS, each bucket in list order. It holds of both revisions.
\<close>

theorem select_fifo:
  assumes "distinct candidates"
    and "SelectCandidates candidates teamSize True allDpsTimer now sel0 adm0 = (True, sel, adm)
       \<or> SelectCandidates_ext candidates teamSize True allDpsTimer oneHealerTimer now sel0 adm0
           = (True, sel, adm)"
    and "i < j" and "j < length candidates"
    and "role (candidates ! i) = role (candidates ! j)"
    and "adm \<longrightarrow> joinTime (candidates ! i) +
           (if filter (\<lambda>c. role c = HEALER) candidates = [] then allDpsTimer
            else oneHealerTimer) \<le> now"
    and "(candidates ! i \<in> set sel) \<noteq> (candidates ! j \<in> set sel)"
  shows "candidates ! i \<in> set sel \<and> candidates ! j \<notin> set sel
       \<and> (\<not> adm \<longrightarrow> sel =
            take (if 1 < teamSize then 2 else 0) (filter (\<lambda>c. role c = HEALER) candidates)
            @ take (teamSize * 2 - (if 1 < teamSize then 2 else 0))
                (filter (\<lambda>c. role c \<noteq> HEALER) candidates))"
proof -
  let ?A = "candidates ! i" and ?B = "candidates ! j"
  let ?H = "\<lambda>c. role c = HEALER" and ?D = "\<lambda>c. role c \<noteq> HEALER"
  let ?t = "if filter ?H candidates = [] then allDpsTimer else oneHealerTimer"
  let ?W = "\<lambda>c. role c \<noteq> HEALER \<and> joinTime c + ?t \<le> now"
  have ext: "SelectCandidates_ext candidates teamSize True allDpsTimer oneHealerTimer now
               sel0 adm0 = (True, sel, adm)"
    using assms(2) select_success_ext by blast
  note cases = select_ext_success_cases [OF ext]
  have std: "\<not> adm \<longrightarrow> sel = take (if 1 < teamSize then 2 else 0) (filter ?H candidates)
            @ take (teamSize * 2 - (if 1 < teamSize then 2 else 0)) (filter ?D candidates)"
    using cases by blast
  have "?A \<in> set sel" if B: "?B \<in> set sel"
  proof (cases adm)
    case False
    let ?hn = "if 1 < teamSize then 2 else 0::nat"
    from B std False
    consider "?B \<in> set (take ?hn (filter ?H candidates))"
      | "?B \<in> set (take (teamSize * 2 - ?hn) (filter ?D candidates))"
      by auto
    then show ?thesis
    proof cases
      case 1
      then have "?H ?B" by (auto dest: in_set_takeD)
      then have "?H ?A" using assms(5) by simp
      then have "?A \<in> set (take ?hn (filter ?H candidates))"
        using take_filter_earlier [of candidates i j ?H ?hn] assms(1,3,4) 1 by blast
      then show ?thesis using std False by auto
    next
      case 2
      then have "?D ?B" by (auto dest: in_set_takeD)
      then have "?D ?A" using assms(5) by simp
      then have "?A \<in> set (take (teamSize * 2 - ?hn) (filter ?D candidates))"
        using take_filter_earlier [of candidates i j ?D "teamSize * 2 - ?hn"] assms(1,3,4) 2
        by blast
      then show ?thesis using std False by auto
    qed
  next
    case True
    then have sel: "sel = take (teamSize * 2) (filter ?W candidates)"
      using cases by (simp add: conj_commute)
    then have "?W ?B" using B by (auto dest: in_set_takeD)
    then have "?W ?A" using assms(5,6) True by simp
    then show ?thesis
      using take_filter_earlier [of candidates i j ?W "teamSize * 2"] assms(1,3,4) B sel
      by blast
  qed
  then show ?thesis using assms(7) std by blast
qed

text \<open>
  The FIFO unit test: two healers, then six DPS; the sixth DPS of the list (player 8)
  stands behind the fourth (player 6), and only one of the two is selected.
\<close>

theorem select_fifo_witness:
  "distinct [mk 1 HEALER 1500 0 0, mk 2 HEALER 1500 100 0, mk 3 DPS 1500 200 0,
             mk 4 DPS 1500 300 0, mk 5 DPS 1500 400 0, mk 6 DPS 1500 500 0,
             mk 7 DPS 1500 600 0, mk 8 DPS 1500 700 0]
   \<and> SelectCandidates
        [mk 1 HEALER 1500 0 0, mk 2 HEALER 1500 100 0, mk 3 DPS 1500 200 0,
         mk 4 DPS 1500 300 0, mk 5 DPS 1500 400 0, mk 6 DPS 1500 500 0,
         mk 7 DPS 1500 600 0, mk 8 DPS 1500 700 0]
        3 True 60000 100000 [] False
       = (True, [mk 1 HEALER 1500 0 0, mk 2 HEALER 1500 100 0, mk 3 DPS 1500 200 0,
                 mk 4 DPS 1500 300 0, mk 5 DPS 1500 400 0, mk 6 DPS 1500 500 0], False)
   \<and> mk 6 DPS 1500 500 0
       \<in> set [mk 1 HEALER 1500 0 0, mk 2 HEALER 1500 100 0, mk 3 DPS 1500 200 0,
              mk 4 DPS 1500 300 0, mk 5 DPS 1500 400 0, mk 6 DPS 1500 500 0]
   \<and> mk 8 DPS 1500 700 0
       \<notin> set [mk 1 HEALER 1500 0 0, mk 2 HEALER 1500 100 0, mk 3 DPS 1500 200 0,
              mk 4 DPS 1500 300 0, mk 5 DPS 1500 400 0, mk 6 DPS 1500 500 0]"
proof -
  let ?pool = "[mk 1 HEALER 1500 0 0, mk 2 HEALER 1500 100 0, mk 3 DPS 1500 200 0,
         mk 4 DPS 1500 300 0, mk 5 DPS 1500 400 0, mk 6 DPS 1500 500 0,
         mk 7 DPS 1500 600 0, mk 8 DPS 1500 700 0]"
  let ?sel = "[mk 1 HEALER 1500 0 0, mk 2 HEALER 1500 100 0, mk 3 DPS 1500 200 0,
         mk 4 DPS 1500 300 0, mk 5 DPS 1500 400 0, mk 6 DPS 1500 500 0]"
  have h1: "distinct ?pool" by (simp add: mk_def)
  have h2: "SelectCandidates ?pool 3 True 60000 100000 [] False = (True, ?sel, False)"
    by (simp add: SelectCandidates_def mk_def)
  have h3: "(5::nat) < 7" "(7::nat) < length ?pool" by simp_all
  have h4: "role (?pool ! 5) = role (?pool ! 7)" by (simp add: mk_def)
  have h5: "(?pool ! 5 \<in> set ?sel) \<noteq> (?pool ! 7 \<in> set ?sel)" by (simp add: mk_def)
  have "?pool ! 5 \<in> set ?sel \<and> ?pool ! 7 \<notin> set ?sel"
    using select_fifo [of ?pool 3 60000 100000 "[]" False ?sel False 60000 5 7]
      h1 h2 h3 h4 h5 by blast
  then show ?thesis using h1 h2 by simp
qed




text \<open>
  The first revision of the header has no single-healer branch, and neither has phase 2
  of \<^verbatim>\<open>Solo3v3::CheckSolo3v3Arena\<close>: with exactly one healer and a team size above 1
  they give no match.
\<close>

lemma select_one_healer_first_revision:
  assumes "length (filter (\<lambda>c. role c = HEALER) candidates) = 1" and "1 < teamSize"
  shows "SelectCandidates candidates teamSize True allDpsTimer now sel0 adm0
           = (False, [], False)"
proof -
  have "filter (\<lambda>c. role c = HEALER) candidates \<noteq> []" using assms(1) by auto
  then show ?thesis using assms by (simp add: SelectCandidates_def Let_def)
qed

section \<open>The enumeration as a fold\<close>

text \<open>
  A fold whose steps each run a fold of their own over a block, while an invariant of
  the first component is kept.
\<close>

lemma fold_blocks:
  assumes "\<And>i c b. i \<in> set js \<Longrightarrow> I c \<Longrightarrow>
             I (fst (F i (c, b))) \<and> snd (F i (c, b)) = foldl g b (blk i)"
    and "I c0"
  shows "I (fst (fold F js (c0, b0))) \<and>
         snd (fold F js (c0, b0)) = foldl g b0 (concat (map blk js))"
  using assms
proof (induction js arbitrary: c0 b0)
  case Nil
  then show ?case by simp
next
  case (Cons j js)
  obtain c1 b1 where s: "F j (c0, b0) = (c1, b1)" by (cases "F j (c0, b0)")
  have one: "I c1 \<and> b1 = foldl g b0 (blk j)"
    using Cons.prems(1) [of j c0 b0] Cons.prems(2) s by simp
  have rest: "I (fst (fold F js (c1, b1))) \<and>
         snd (fold F js (c1, b1)) = foldl g b1 (concat (map blk js))"
    using Cons.IH [of c1 b1] Cons.prems(1) one by simp
  show ?case using rest one s by simp
qed

text \<open>
  The enumeration is a left fold of the leaf over \<open>combs\<close>: the first \<open>depth\<close> entries of
  \<open>combo\<close> are the indices chosen so far, and every leaf sees a fully written vector.
\<close>

lemma enum_gen_fold:
  assumes "depth \<le> teamSize" "length combo = teamSize"
  shows "length (fst (enum_gen leaf start depth combo teamSize n b)) = teamSize
       \<and> take depth (fst (enum_gen leaf start depth combo teamSize n b)) = take depth combo
       \<and> snd (enum_gen leaf start depth combo teamSize n b)
           = foldl (\<lambda>b c. leaf (take depth combo @ c) b) b (combs (teamSize - depth) start n)"
  using assms
proof (induction leaf start depth combo teamSize n b rule: enum_gen.induct)
  case (1 leaf start depth combo teamSize n b)
  show ?case
  proof (cases "depth = teamSize")
    case True
    then show ?thesis using "1.prems" by (simp add: enum_gen.simps)
  next
    case False
    then have lt: "depth < teamSize" using "1.prems" by simp
    define k where "k = teamSize - Suc depth"
    have k: "teamSize - depth = Suc k" using lt by (simp add: k_def)
    define P where "P = take depth combo"
    define I where "I = (\<lambda>c. length c = teamSize \<and> take depth c = P)"
    define F where "F = (\<lambda>i (combo', b').
        enum_gen leaf (i + 1) (depth + 1) (combo'[depth := i]) teamSize n b')"
    define js where "js = [start ..< Suc (n - (teamSize - depth))]"
    have step: "I (fst (F i (c, b'))) \<and>
        snd (F i (c, b')) = foldl (\<lambda>b x. leaf (P @ x) b) b' (map ((#) i) (combs k (Suc i) n))"
      if i: "i \<in> set js" and c: "I c" for i c b'
    proof -
      have len: "length (c[depth := i]) = teamSize" using c by (simp add: I_def)
      have pre: "take (Suc depth) (c[depth := i]) = P @ [i]"
        using c lt by (simp add: I_def take_Suc_conv_app_nth)
      note ih = "1.IH" [OF False i [unfolded js_def], of c b']
      have ih': "length (fst (F i (c, b'))) = teamSize
         \<and> take (Suc depth) (fst (F i (c, b'))) = P @ [i]
         \<and> snd (F i (c, b')) = foldl (\<lambda>b x. leaf ((P @ [i]) @ x) b) b' (combs k (Suc i) n)"
        using ih len lt pre by (simp add: F_def k_def)
      have "take depth (fst (F i (c, b'))) = take depth (take (Suc depth) (fst (F i (c, b'))))"
        by (simp add: min_def)
      also have "\<dots> = P" using ih' c lt "1.prems" by (simp add: I_def P_def)
      finally have "I (fst (F i (c, b')))" using ih' by (simp add: I_def)
      then show ?thesis using ih' by (simp add: foldl_map)
    qed
    have I0: "I combo" using "1.prems" by (simp add: I_def P_def)
    have "I (fst (fold F js (combo, b))) \<and>
         snd (fold F js (combo, b))
          = foldl (\<lambda>b x. leaf (P @ x) b) b
              (concat (map (\<lambda>i. map ((#) i) (combs k (Suc i) n)) js))"
      by (rule fold_blocks [where I = I, OF step I0])
    moreover have "enum_gen leaf start depth combo teamSize n b = fold F js (combo, b)"
      using False by (subst enum_gen.simps) (simp add: F_def js_def)
    ultimately show ?thesis
      by (simp add: I_def P_def k js_def)
  qed
qed

text \<open>
  The enumerator of the first revision is the generic one with its own leaf.
\<close>

lemma Enumerate_gen:
  "Enumerate start depth combo selected teamSize n filterTalents allDpsMatch b
   = enum_gen (\<lambda>c b. Enumerate_leaf c selected teamSize n filterTalents allDpsMatch b)
       start depth combo teamSize n b"
proof (induction start depth combo selected teamSize n filterTalents allDpsMatch b
    rule: Enumerate.induct)
  case (1 start depth combo selected teamSize n filterTalents allDpsMatch b)
  show ?case
  proof (cases "depth = teamSize")
    case True
    then show ?thesis by (simp add: Enumerate.simps enum_gen.simps)
  next
    case False
    have eq: "Enumerate (i + 1) (depth + 1) (c'[depth := i]) selected teamSize n
          filterTalents allDpsMatch b'
        = enum_gen (\<lambda>c b. Enumerate_leaf c selected teamSize n filterTalents allDpsMatch b)
            (i + 1) (depth + 1) (c'[depth := i]) teamSize n b'"
      if "i \<in> set [start ..< Suc (n - (teamSize - depth))]" for i c' b'
      using "1.IH" [OF False that] .
    have "fold (\<lambda>i (combo', b').
                  Enumerate (i + 1) (depth + 1) (combo'[depth := i]) selected teamSize n
                    filterTalents allDpsMatch b')
            [start ..< Suc (n - (teamSize - depth))] (combo, b)
        = fold (\<lambda>i (combo', b').
                  enum_gen (\<lambda>c b. Enumerate_leaf c selected teamSize n filterTalents allDpsMatch b)
                    (i + 1) (depth + 1) (combo'[depth := i]) teamSize n b')
            [start ..< Suc (n - (teamSize - depth))] (combo, b)"
    proof (rule fold_cong [OF refl refl])
      fix x assume "x \<in> set [start ..< Suc (n - (teamSize - depth))]"
      then show "(\<lambda>(combo', b').
                  Enumerate (x + 1) (depth + 1) (combo'[depth := x]) selected teamSize n
                    filterTalents allDpsMatch b')
         = (\<lambda>(combo', b').
                  enum_gen (\<lambda>c b. Enumerate_leaf c selected teamSize n filterTalents allDpsMatch b)
                    (x + 1) (depth + 1) (combo'[depth := x]) teamSize n b')"
        by (simp only: eq)
    qed
    then show ?thesis using False
      by (subst Enumerate.simps, subst enum_gen.simps) simp
  qed
qed

section \<open>Combinations and complements\<close>

lemma sorted_range_length:
  assumes "sorted_wrt (<) (a # c)" "\<forall>x \<in> set (a # c). x < n"
  shows "a + Suc (length c) \<le> (n::nat)"
  using assms
proof (induction c arbitrary: a)
  case Nil
  then show ?case by simp
next
  case (Cons b c)
  have "b + Suc (length c) \<le> n" using Cons.IH [of b] Cons.prems by simp
  moreover have "a < b" using Cons.prems by simp
  ultimately show ?case by simp
qed

lemma in_combs_Suc:
  "c \<in> set (combs (Suc k) lo n)
     \<longleftrightarrow> (\<exists>i c'. c = i # c' \<and> lo \<le> i \<and> i \<le> n - Suc k \<and> c' \<in> set (combs k (Suc i) n))"
  by (auto simp del: upt_Suc)

text \<open>
  \<open>combs\<close> lists exactly the increasing index lists of the given length and range.
\<close>

lemma combs_sound:
  assumes "k \<le> n" "c \<in> set (combs k lo n)"
  shows "length c = k \<and> sorted_wrt (<) c \<and> (\<forall>x \<in> set c. lo \<le> x \<and> x < n)"
  using assms
proof (induction k arbitrary: c lo)
  case 0
  then show ?case by simp
next
  case (Suc k)
  from Suc.prems(2) obtain i c' where i: "lo \<le> i" "i \<le> n - Suc k"
    and c': "c' \<in> set (combs k (Suc i) n)" and c: "c = i # c'"
    unfolding in_combs_Suc by blast
  have "length c' = k \<and> sorted_wrt (<) c' \<and> (\<forall>x \<in> set c'. Suc i \<le> x \<and> x < n)"
    using Suc.IH [OF _ c'] Suc.prems(1) by simp
  moreover have "i < n" using i Suc.prems(1) by simp
  ultimately show ?case using c i by auto
qed

lemma combs_complete:
  assumes "length c = k" "sorted_wrt (<) c" "\<forall>x \<in> set c. lo \<le> x \<and> x < n"
  shows "c \<in> set (combs k lo n)"
  using assms
proof (induction k arbitrary: c lo)
  case 0
  then show ?case by simp
next
  case (Suc k)
  from Suc.prems(1) obtain i c' where c: "c = i # c'" by (cases c) auto
  have len: "length c' = k" and srt: "sorted_wrt (<) c'"
    and rng: "\<forall>x \<in> set c'. Suc i \<le> x \<and> x < n"
    using Suc.prems c by auto
  have "c' \<in> set (combs k (Suc i) n)" by (rule Suc.IH [OF len srt rng])
  moreover have "i + Suc k \<le> n"
    using sorted_range_length [of i c' n] Suc.prems(2,3) c len by simp
  then have "i \<le> n - Suc k" by simp
  moreover have "lo \<le> i" using Suc.prems(3) c by simp
  ultimately show ?case unfolding in_combs_Suc using c by blast
qed

lemma combs_iff:
  assumes "k \<le> n"
  shows "c \<in> set (combs k lo n)
     \<longleftrightarrow> length c = k \<and> sorted_wrt (<) c \<and> (\<forall>x \<in> set c. lo \<le> x \<and> x < n)"
  using combs_sound [OF assms] combs_complete by blast

text \<open>
  On an increasing vector the complement loop returns the indices of \<open>[0, n)\<close> that are
  not in it.
\<close>

lemma complement_loop_filter:
  assumes "sorted_wrt (<) combo" "\<forall>x \<in> set (drop ci combo). a \<le> x"
  shows "complement_loop [a..<n] (length combo) combo ci acc
       = acc @ filter (\<lambda>i. i \<notin> set (drop ci combo)) [a..<n]"
  using assms
proof (induction "n - a" arbitrary: a ci acc)
  case 0
  then show ?case by simp
next
  case (Suc m)
  then have an: "a < n" by simp
  then have upt: "[a..<n] = a # [Suc a..<n]" by (simp add: upt_conv_Cons)
  have m: "m = n - Suc a" using Suc.hyps(2) by simp
  show ?case
  proof (cases "ci < length combo \<and> combo ! ci = a")
    case True
    then have d: "drop ci combo = a # drop (Suc ci) combo"
      by (metis Cons_nth_drop_Suc)
    have "sorted_wrt (<) (drop ci combo)" using Suc.prems(1) by (rule sorted_wrt_drop)
    then have gt: "\<forall>x \<in> set (drop (Suc ci) combo). Suc a \<le> x"
      using d by auto
    have "complement_loop [Suc a..<n] (length combo) combo (Suc ci) acc
        = acc @ filter (\<lambda>i. i \<notin> set (drop (Suc ci) combo)) [Suc a..<n]"
      by (rule Suc.hyps(1) [OF m Suc.prems(1) gt])
    moreover have "filter (\<lambda>i. i \<notin> set (drop ci combo)) [Suc a..<n]
        = filter (\<lambda>i. i \<notin> set (drop (Suc ci) combo)) [Suc a..<n]"
      using d by (auto intro!: filter_cong)
    ultimately show ?thesis using True upt d by simp
  next
    case False
    have notin: "a \<notin> set (drop ci combo)"
    proof (cases "ci < length combo")
      case True
      then have d: "drop ci combo = combo ! ci # drop (Suc ci) combo"
        by (metis Cons_nth_drop_Suc)
      have s: "sorted_wrt (<) (drop ci combo)" using Suc.prems(1) by (rule sorted_wrt_drop)
      have "a < combo ! ci" using Suc.prems(2) d False True
        by (metis le_neq_implies_less list.set_intros(1))
      then show ?thesis using s d by auto
    next
      case False
      then show ?thesis by simp
    qed
    then have ge: "\<forall>x \<in> set (drop ci combo). Suc a \<le> x"
      using Suc.prems(2) by (metis Suc_leI le_neq_implies_less)
    have "complement_loop [Suc a..<n] (length combo) combo ci (acc @ [a])
        = (acc @ [a]) @ filter (\<lambda>i. i \<notin> set (drop ci combo)) [Suc a..<n]"
      by (rule Suc.hyps(1) [OF m Suc.prems(1) ge])
    then show ?thesis using False upt notin by auto
  qed
qed

lemma complement_filter:
  assumes "sorted_wrt (<) combo"
  shows "complement n (length combo) combo = filter (\<lambda>i. i \<notin> set combo) [0..<n]"
  using complement_loop_filter [OF assms, of 0 0 n "[]"] by (simp add: complement_def)

text \<open>
  The enumeration order is the lexicographic order.
\<close>

lemma combs_lex_sorted: "sorted_wrt (ord_class.lexordp) (combs k lo n)"
proof (induction k arbitrary: lo)
  case 0
  then show ?case by simp
next
  case (Suc k)
  have blocks: "sorted_wrt (ord_class.lexordp)
      (concat (map (\<lambda>i. map ((#) i) (combs k (Suc i) n)) [lo ..< hi]))" for hi
  proof (induction hi)
    case 0
    then show ?case by simp
  next
    case (Suc hi)
    show ?case
    proof (cases "lo \<le> hi")
      case True
      have blk: "sorted_wrt (ord_class.lexordp) (map ((#) hi) (combs k (Suc hi) n))"
        using Suc.IH \<open>\<And>lo. sorted_wrt (ord_class.lexordp) (combs k lo n)\<close>
        by (simp add: sorted_wrt_map)
      have cross: "ord_class.lexordp x y"
        if "x \<in> set (concat (map (\<lambda>i. map ((#) i) (combs k (Suc i) n)) [lo ..< hi]))"
          and "y \<in> set (map ((#) hi) (combs k (Suc hi) n))" for x y
        using that by auto
      show ?thesis using True Suc.IH blk cross
        by (simp add: sorted_wrt_append)
    next
      case False
      then show ?thesis by simp
    qed
  qed
  show ?case by (simp del: upt_Suc add: blocks)
qed

section \<open>Keeping the first best\<close>

text \<open>
  A search that replaces its best only by a strictly better element keeps the first of the
  best elements.
\<close>

lemma first_best_step:
  assumes "first_best ok key cs r"
  shows "first_best ok key (cs @ [x]) (keep_better ok key r x)"
proof (cases r)
  case None
  then have no: "\<forall>c \<in> set cs. \<not> ok c" using assms by (simp add: first_best_def)
  show ?thesis
  proof (cases "ok x")
    case True
    have "cs @ [x] = cs @ x # [] \<and> ok x
         \<and> (\<forall>c \<in> set cs. ok c \<longrightarrow> key x < key c)
         \<and> (\<forall>c \<in> set []. ok c \<longrightarrow> key x \<le> key c)"
      using True no by simp
    then have "\<exists>pre post. cs @ [x] = pre @ x # post \<and> ok x
         \<and> (\<forall>c \<in> set pre. ok c \<longrightarrow> key x < key c)
         \<and> (\<forall>c \<in> set post. ok c \<longrightarrow> key x \<le> key c)"
      by (intro exI)
    then show ?thesis using None True by (simp add: first_best_def keep_better_def)
  next
    case False
    then show ?thesis using None no by (simp add: first_best_def keep_better_def)
  qed
next
  case (Some d)
  then obtain pre post where cs: "cs = pre @ d # post" and okd: "ok d"
      and pre: "\<forall>c \<in> set pre. ok c \<longrightarrow> key d < key c"
      and post: "\<forall>c \<in> set post. ok c \<longrightarrow> key d \<le> key c"
    using assms unfolding first_best_def by auto
  show ?thesis
  proof (cases "ok x \<and> key x < key d")
    case True
    have all: "\<forall>c \<in> set cs. ok c \<longrightarrow> key x < key c"
    proof (intro ballI impI)
      fix c assume c: "c \<in> set cs" "ok c"
      from c(1) cs consider "c \<in> set pre" | "c = d" | "c \<in> set post" by auto
      then show "key x < key c"
      proof cases
        case 1
        then have "key d < key c" using pre c(2) by blast
        then show ?thesis using True by (meson less_trans)
      next
        case 2
        then show ?thesis using True by simp
      next
        case 3
        then have "key d \<le> key c" using post c(2) by blast
        then show ?thesis using True by (meson less_le_trans)
      qed
    qed
    have "cs @ [x] = cs @ x # [] \<and> ok x
         \<and> (\<forall>c \<in> set cs. ok c \<longrightarrow> key x < key c)
         \<and> (\<forall>c \<in> set []. ok c \<longrightarrow> key x \<le> key c)"
      using True all by simp
    then have "\<exists>pre post. cs @ [x] = pre @ x # post \<and> ok x
         \<and> (\<forall>c \<in> set pre. ok c \<longrightarrow> key x < key c)
         \<and> (\<forall>c \<in> set post. ok c \<longrightarrow> key x \<le> key c)"
      by (intro exI)
    then show ?thesis using Some True by (simp add: first_best_def keep_better_def)
  next
    case False
    have keep: "keep_better ok key r x = Some d"
      using False Some by (auto simp: keep_better_def)
    have p: "\<forall>c \<in> set (post @ [x]). ok c \<longrightarrow> key d \<le> key c"
      using False post by auto
    have "cs @ [x] = pre @ d # (post @ [x]) \<and> ok d
         \<and> (\<forall>c \<in> set pre. ok c \<longrightarrow> key d < key c)
         \<and> (\<forall>c \<in> set (post @ [x]). ok c \<longrightarrow> key d \<le> key c)"
      using cs okd pre p by simp
    then have "\<exists>pre post. cs @ [x] = pre @ d # post \<and> ok d
         \<and> (\<forall>c \<in> set pre. ok c \<longrightarrow> key d < key c)
         \<and> (\<forall>c \<in> set post. ok c \<longrightarrow> key d \<le> key c)"
      by (intro exI)
    then show ?thesis using keep by (simp add: first_best_def)
  qed
qed

lemma keep_better_fold: "first_best ok key cs (foldl (keep_better ok key) None cs)"
proof (induction cs rule: rev_induct)
  case Nil
  then show ?case by (simp add: first_best_def)
next
  case (snoc x cs)
  then show ?case using first_best_step [of ok key cs _ x] by simp
qed

lemma foldl_abstract:
  assumes "\<And>b c. Inv b \<Longrightarrow> Inv (step b c) \<and> \<alpha> (step b c) = astep (\<alpha> b) c"
    and "Inv b0"
  shows "Inv (foldl step b0 cs) \<and> \<alpha> (foldl step b0 cs) = foldl astep (\<alpha> b0) cs"
  using assms(2)
proof (induction cs arbitrary: b0)
  case Nil
  then show ?case by simp
next
  case (Cons c cs)
  have "Inv (step b0 c) \<and> \<alpha> (step b0 c) = astep (\<alpha> b0) c"
    using assms(1) Cons.prems by blast
  then show ?case using Cons.IH [of "step b0 c"] by simp
qed

lemma first_best_Some:
  assumes fb: "first_best ok key cs (Some d)" and srt: "sorted_wrt R cs"
  shows "d \<in> set cs \<and> ok d
     \<and> (\<forall>c \<in> set cs. ok c \<longrightarrow> key d \<le> key c \<and> (key c = key d \<longrightarrow> c = d \<or> R d c))"
proof -
  from fb obtain pre post where cs: "cs = pre @ d # post" and okd: "ok d"
      and pre: "\<forall>c \<in> set pre. ok c \<longrightarrow> key d < key c"
      and post: "\<forall>c \<in> set post. ok c \<longrightarrow> key d \<le> key c"
    unfolding first_best_def by auto
  have later: "\<forall>c \<in> set post. R d c"
    using srt cs by (simp add: sorted_wrt_append)
  have "key d \<le> key c \<and> (key c = key d \<longrightarrow> c = d \<or> R d c)" if c: "c \<in> set cs" "ok c" for c
  proof -
    from c(1) cs consider "c \<in> set pre" | "c = d" | "c \<in> set post" by auto
    then show ?thesis
    proof cases
      case 1
      then have "key d < key c" using pre c(2) by blast
      then show ?thesis by auto
    next
      case 2
      then show ?thesis by simp
    next
      case 3
      then show ?thesis using post later c(2) by blast
    qed
  qed
  moreover have "d \<in> set cs" using cs by simp
  ultimately show ?thesis using okd by blast
qed

lemma best_search:
  assumes abs: "\<And>b c. Inv b \<Longrightarrow> Inv (step b c) \<and> \<alpha> (step b c) = keep_better ok key (\<alpha> b) c"
    and b0: "Inv b0" "\<alpha> b0 = None"
    and srt: "sorted_wrt R cs"
  shows "Inv (foldl step b0 cs)
     \<and> (\<alpha> (foldl step b0 cs) = None \<longrightarrow> (\<forall>c \<in> set cs. \<not> ok c))
     \<and> (\<forall>d. \<alpha> (foldl step b0 cs) = Some d \<longrightarrow>
            d \<in> set cs \<and> ok d
            \<and> (\<forall>c \<in> set cs. ok c \<longrightarrow> key d \<le> key c \<and> (key c = key d \<longrightarrow> c = d \<or> R d c)))"
proof -
  let ?r = "foldl step b0 cs"
  have a: "Inv ?r \<and> \<alpha> ?r = foldl (keep_better ok key) None cs"
    using foldl_abstract [of Inv step \<alpha> "keep_better ok key" b0 cs] abs b0 by simp
  have fb: "first_best ok key cs (\<alpha> ?r)"
    using keep_better_fold [of ok key cs] a by simp
  have n: "\<alpha> ?r = None \<longrightarrow> (\<forall>c \<in> set cs. \<not> ok c)"
    using fb by (auto simp: first_best_def)
  have s: "\<forall>d. \<alpha> ?r = Some d \<longrightarrow>
            d \<in> set cs \<and> ok d
            \<and> (\<forall>c \<in> set cs. ok c \<longrightarrow> key d \<le> key c \<and> (key c = key d \<longrightarrow> c = d \<or> R d c))"
  proof (intro allI impI)
    fix d assume "\<alpha> ?r = Some d"
    then have "first_best ok key cs (Some d)" using fb by simp
    then show "d \<in> set cs \<and> ok d
            \<and> (\<forall>c \<in> set cs. ok c \<longrightarrow> key d \<le> key c \<and> (key c = key d \<longrightarrow> c = d \<or> R d c))"
      using srt by (rule first_best_Some)
  qed
  show ?thesis using a n s by (intro conjI) simp_all
qed

section \<open>The three searches\<close>

text \<open>
  The two other enumerators are the generic one as well.
\<close>

lemma Enumerate_ext_gen:
  "Enumerate_ext start depth combo selected teamSize n filterTalents allDpsMatch lvl msk b
   = enum_gen (\<lambda>c b. Enumerate_ext_leaf c selected teamSize n filterTalents allDpsMatch lvl msk b)
       start depth combo teamSize n b"
proof (induction start depth combo selected teamSize n filterTalents allDpsMatch lvl msk b
    rule: Enumerate_ext.induct)
  case (1 start depth combo selected teamSize n filterTalents allDpsMatch lvl msk b)
  show ?case
  proof (cases "depth = teamSize")
    case True
    then show ?thesis by (simp add: Enumerate_ext.simps enum_gen.simps)
  next
    case False
    have eq: "Enumerate_ext (i + 1) (depth + 1) (c'[depth := i]) selected teamSize n
          filterTalents allDpsMatch lvl msk b'
        = enum_gen (\<lambda>c b. Enumerate_ext_leaf c selected teamSize n filterTalents allDpsMatch
                             lvl msk b)
            (i + 1) (depth + 1) (c'[depth := i]) teamSize n b'"
      if "i \<in> set [start ..< Suc (n - (teamSize - depth))]" for i c' b'
      using "1.IH" [OF False that] .
    have "fold (\<lambda>i (combo', b').
                  Enumerate_ext (i + 1) (depth + 1) (combo'[depth := i]) selected teamSize n
                    filterTalents allDpsMatch lvl msk b')
            [start ..< Suc (n - (teamSize - depth))] (combo, b)
        = fold (\<lambda>i (combo', b').
                  enum_gen (\<lambda>c b. Enumerate_ext_leaf c selected teamSize n filterTalents
                                     allDpsMatch lvl msk b)
                    (i + 1) (depth + 1) (combo'[depth := i]) teamSize n b')
            [start ..< Suc (n - (teamSize - depth))] (combo, b)"
    proof (rule fold_cong [OF refl refl])
      fix x assume "x \<in> set [start ..< Suc (n - (teamSize - depth))]"
      then show "(\<lambda>(combo', b').
                  Enumerate_ext (x + 1) (depth + 1) (combo'[depth := x]) selected teamSize n
                    filterTalents allDpsMatch lvl msk b')
         = (\<lambda>(combo', b').
                  enum_gen (\<lambda>c b. Enumerate_ext_leaf c selected teamSize n filterTalents
                                     allDpsMatch lvl msk b)
                    (x + 1) (depth + 1) (combo'[depth := x]) teamSize n b')"
        by (simp only: eq)
    qed
    then show ?thesis using False
      by (subst Enumerate_ext.simps, subst enum_gen.simps) simp
  qed
qed


lemma enum_gen_top:
  "snd (enum_gen leaf 0 0 (replicate teamSize 0) teamSize n b)
     = foldl (\<lambda>b c. leaf c b) b (combs teamSize 0 n)"
  using enum_gen_fold [of 0 teamSize "replicate teamSize 0" leaf 0 n b] by simp

text \<open>
  The first revision is the later one with class stacking off (level 0), whatever the
  mask.
\<close>

lemma Enumerate_leaf_ext:
  "Enumerate_leaf c selected teamSize n filterTalents allDpsMatch b
   = Enumerate_ext_leaf c selected teamSize n filterTalents allDpsMatch 0 msk b"
  by (simp add: Enumerate_leaf_def Enumerate_ext_leaf_def Let_def split del: if_split
      cong: if_cong)

lemma Enumerate_leaf_ext_fun:
  "(\<lambda>c. Enumerate_leaf c selected teamSize n filterTalents allDpsMatch)
   = (\<lambda>c. Enumerate_ext_leaf c selected teamSize n filterTalents allDpsMatch 0 msk)"
  by (intro ext) (rule Enumerate_leaf_ext)

lemma FindBestTeamSplit_ext_0:
  "FindBestTeamSplit selected teamSize filterTalents allDpsMatch
   = FindBestTeamSplit_ext selected teamSize filterTalents allDpsMatch 0 msk"
proof -
  have eq: "Enumerate 0 0 (replicate teamSize 0) selected teamSize (length selected) filterTalents
          allDpsMatch b
      = Enumerate_ext 0 0 (replicate teamSize 0) selected teamSize (length selected)
          filterTalents allDpsMatch 0 msk b" for b
    unfolding Enumerate_gen Enumerate_ext_gen
    by (simp only: Enumerate_leaf_ext_fun [where msk = msk])
  show ?thesis
    unfolding FindBestTeamSplit_def FindBestTeamSplit_ext_def Let_def eq by (rule refl)
qed

lemma length_others:
  assumes "team_choice n teamSize team1"
  shows "length (others n team1) = n - teamSize"
proof -
  have d: "distinct team1" using assms
    by (simp add: team_choice_def strict_sorted_iff)
  have sub: "set team1 \<subseteq> {0 ..< n}" using assms by (simp add: team_choice_def)
  have "length (others n team1) = card ({i. i \<notin> set team1} \<inter> set [0 ..< n])"
    unfolding others_def by (rule distinct_length_filter) simp
  also have "{i. i \<notin> set team1} \<inter> set [0 ..< n] = {0 ..< n} - set team1" by auto
  also have "card \<dots> = card {0 ..< n} - card (set team1)"
    using sub by (simp add: card_Diff_subset)
  also have "\<dots> = n - teamSize"
    using d assms by (simp add: distinct_card team_choice_def)
  finally show ?thesis .
qed

lemma combs_team_choice:
  assumes "teamSize \<le> n"
  shows "c \<in> set (combs teamSize 0 n) \<longleftrightarrow> team_choice n teamSize c"
  using combs_iff [OF assms, of c 0] by (auto simp: team_choice_def)

lemma complement_others:
  assumes "team_choice n teamSize c"
  shows "complement n teamSize c = others n c"
  using complement_filter [of c n] assms by (simp add: team_choice_def others_def)

lemma gap_if: "nat (if s2 < s1 then s1 - s2 else s2 - s1) = nat \<bar>s1 - s2\<bar>" for s1 s2 :: int
  by auto

text \<open>
  The leaf in one test: the partition passes the filters, and there is no best yet or
  this one is strictly better.
\<close>

lemma Enumerate_ext_leaf_alt:
  "Enumerate_ext_leaf c sel ts n ft adm lvl msk b =
     (if (role_balance_ok sel ft adm c (complement n ts c)
          \<and> class_diversity_ok sel lvl msk c (complement n ts c))
         \<and> (\<not> haveBest b \<or> rating_gap sel c (complement n ts c) < bestDiff b)
      then \<lparr>bestTeam1 = c, haveBest = True, bestDiff = rating_gap sel c (complement n ts c)\<rparr>
      else b)"
  unfolding Enumerate_ext_leaf_def role_balance_ok_def class_diversity_ok_def rating_gap_def
    Let_def gap_if
  by auto


text \<open>
  What the search of the class-stacking revision returns.
\<close>

lemma ext_search:
  fixes sel :: "QueuedCandidate list"
  defines "b0 \<equiv> \<lparr>bestTeam1 = [], haveBest = False, bestDiff = 0\<rparr>"
  assumes ts: "ts \<le> n"
    and b: "b = snd (Enumerate_ext 0 0 (replicate ts 0) sel ts n ft adm lvl msk b0)"
  shows "(\<not> haveBest b \<longrightarrow>
            (\<forall>c. team_choice n ts c \<longrightarrow>
               \<not> (role_balance_ok sel ft adm c (others n c)
                  \<and> class_diversity_ok sel lvl msk c (others n c))))
       \<and> (haveBest b \<longrightarrow>
            team_choice n ts (bestTeam1 b)
            \<and> role_balance_ok sel ft adm (bestTeam1 b) (others n (bestTeam1 b))
            \<and> class_diversity_ok sel lvl msk (bestTeam1 b) (others n (bestTeam1 b))
            \<and> bestDiff b = rating_gap sel (bestTeam1 b) (others n (bestTeam1 b))
            \<and> (\<forall>c. team_choice n ts c
                    \<and> role_balance_ok sel ft adm c (others n c)
                    \<and> class_diversity_ok sel lvl msk c (others n c)
                  \<longrightarrow> bestDiff b \<le> rating_gap sel c (others n c)
                      \<and> (rating_gap sel c (others n c) = bestDiff b
                           \<longrightarrow> c = bestTeam1 b \<or> lex_before (bestTeam1 b) c)))"
proof -
  define ok where "ok = (\<lambda>c. role_balance_ok sel ft adm c (complement n ts c)
                            \<and> class_diversity_ok sel lvl msk c (complement n ts c))"
  define key where "key = (\<lambda>c. rating_gap sel c (complement n ts c))"
  define \<alpha> where "\<alpha> = (\<lambda>b::best. if haveBest b then Some (bestTeam1 b) else None)"
  define Inv where "Inv = (\<lambda>b::best. haveBest b \<longrightarrow> bestDiff b = key (bestTeam1 b))"
  define step where "step = (\<lambda>b c. Enumerate_ext_leaf c sel ts n ft adm lvl msk b)"
  define cs where "cs = combs ts 0 n"
  have abs: "Inv (step b c) \<and> \<alpha> (step b c) = keep_better ok key (\<alpha> b) c" if "Inv b" for b c
    using that
    by (auto simp: Inv_def \<alpha>_def step_def ok_def key_def Enumerate_ext_leaf_alt keep_better_def)
  have fold: "b = foldl step b0 cs"
    unfolding b Enumerate_ext_gen enum_gen_top step_def cs_def ..
  have srt: "sorted_wrt ord_class.lexordp cs" unfolding cs_def by (rule combs_lex_sorted)
  have init: "Inv b0" "\<alpha> b0 = None" by (simp_all add: Inv_def \<alpha>_def b0_def)
  note search = best_search [where Inv = Inv and step = step and ok = ok and key = key
      and R = ord_class.lexordp and cs = cs, OF abs init srt, folded fold]
  have mem: "c \<in> set cs \<longleftrightarrow> team_choice n ts c" for c
    unfolding cs_def by (rule combs_team_choice [OF ts])
  have okc: "ok c \<longleftrightarrow> role_balance_ok sel ft adm c (others n c)
                       \<and> class_diversity_ok sel lvl msk c (others n c)"
    and keyc: "key c = rating_gap sel c (others n c)" if "team_choice n ts c" for c
    using complement_others [OF that] by (simp_all add: ok_def key_def)
  have none: "\<forall>c. team_choice n ts c \<longrightarrow>
               \<not> (role_balance_ok sel ft adm c (others n c)
                  \<and> class_diversity_ok sel lvl msk c (others n c))" if "\<not> haveBest b"
  proof -
    have "\<alpha> b = None" using that by (simp add: \<alpha>_def)
    then have "\<forall>c \<in> set cs. \<not> ok c" using search by blast
    then show ?thesis using mem okc by blast
  qed
  have some: "team_choice n ts (bestTeam1 b)
            \<and> role_balance_ok sel ft adm (bestTeam1 b) (others n (bestTeam1 b))
            \<and> class_diversity_ok sel lvl msk (bestTeam1 b) (others n (bestTeam1 b))
            \<and> bestDiff b = rating_gap sel (bestTeam1 b) (others n (bestTeam1 b))
            \<and> (\<forall>c. team_choice n ts c
                    \<and> role_balance_ok sel ft adm c (others n c)
                    \<and> class_diversity_ok sel lvl msk c (others n c)
                  \<longrightarrow> bestDiff b \<le> rating_gap sel c (others n c)
                      \<and> (rating_gap sel c (others n c) = bestDiff b
                           \<longrightarrow> c = bestTeam1 b \<or> lex_before (bestTeam1 b) c))" if hb: "haveBest b"
  proof -
    let ?d = "bestTeam1 b"
    have a: "\<alpha> b = Some ?d" using hb by (simp add: \<alpha>_def)
    have i: "bestDiff b = key ?d" using search hb by (simp add: Inv_def)
    from search a have d: "?d \<in> set cs" "ok ?d"
      and min: "\<forall>c \<in> set cs. ok c \<longrightarrow> key ?d \<le> key c
                  \<and> (key c = key ?d \<longrightarrow> c = ?d \<or> ord_class.lexordp ?d c)"
      by blast+
    have tc: "team_choice n ts ?d" using d(1) mem by simp
    have "bestDiff b \<le> rating_gap sel c (others n c)
          \<and> (rating_gap sel c (others n c) = bestDiff b \<longrightarrow> c = ?d \<or> lex_before ?d c)"
      if c: "team_choice n ts c" "role_balance_ok sel ft adm c (others n c)"
        "class_diversity_ok sel lvl msk c (others n c)" for c
    proof -
      have "c \<in> set cs" "ok c" using c mem okc by simp_all
      then have "key ?d \<le> key c \<and> (key c = key ?d \<longrightarrow> c = ?d \<or> ord_class.lexordp ?d c)"
        using min by blast
      then show ?thesis using keyc [OF c(1)] i by (simp add: lex_before_def)
    qed
    then show ?thesis using tc okc [OF tc] keyc [OF tc] d(2) i by simp
  qed
  show ?thesis using none some by blast
qed


lemma split_ext_valid:
  fixes sel :: "QueuedCandidate list"
  defines "n \<equiv> length sel"
  assumes r: "r = FindBestTeamSplit_ext sel ts ft adm lvl msk" and v: "valid r"
  shows "2 * ts \<le> n
       \<and> team_choice n ts (team1Indices r)
       \<and> team2Indices r = others n (team1Indices r)
       \<and> role_balance_ok sel ft adm (team1Indices r) (team2Indices r)
       \<and> class_diversity_ok sel lvl msk (team1Indices r) (team2Indices r)
       \<and> mmrDiff r = rating_gap sel (team1Indices r) (team2Indices r)
       \<and> (\<forall>c. team_choice n ts c
               \<and> role_balance_ok sel ft adm c (others n c)
               \<and> class_diversity_ok sel lvl msk c (others n c)
             \<longrightarrow> mmrDiff r \<le> rating_gap sel c (others n c)
                 \<and> (rating_gap sel c (others n c) = mmrDiff r
                      \<longrightarrow> c = team1Indices r \<or> lex_before (team1Indices r) c))"
proof -
  define b where "b = snd (Enumerate_ext 0 0 (replicate ts 0) sel ts n ft adm lvl msk
                        \<lparr>bestTeam1 = [], haveBest = False, bestDiff = 0\<rparr>)"
  have n2: "2 * ts \<le> n"
    using v unfolding r FindBestTeamSplit_ext_def n_def by (auto simp: Let_def split: if_splits)
  have hb: "haveBest b"
    using v n2 unfolding r FindBestTeamSplit_ext_def n_def b_def
    by (auto simp: Let_def case_prod_unfold split: if_splits)
  have res: "r = \<lparr>valid = True, team1Indices = bestTeam1 b,
                 team2Indices = complement n (length (bestTeam1 b)) (bestTeam1 b),
                 mmrDiff = bestDiff b\<rparr>"
    using hb n2 unfolding r FindBestTeamSplit_ext_def n_def b_def
    by (auto simp: Let_def case_prod_unfold)
  have ts: "ts \<le> n" using n2 by simp
  note s = ext_search [OF ts b_def]
  have tc: "team_choice n ts (bestTeam1 b)" using s hb by blast
  have len: "length (bestTeam1 b) = ts" using tc by (simp add: team_choice_def)
  have t2: "team2Indices r = others n (bestTeam1 b)"
    using res len complement_others [OF tc] by simp
  have t1: "team1Indices r = bestTeam1 b" "mmrDiff r = bestDiff b" using res by simp_all
  show ?thesis unfolding t2 t1 using s hb n2 by blast
qed

lemma others_partition:
  assumes "team_choice n ts c"
  shows "set c \<inter> set (others n c) = {}" "set c \<union> set (others n c) = {0 ..< n}"
    "distinct c" "distinct (others n c)" "length (others n c) = n - ts"
  using assms length_others [OF assms]
  by (auto simp: team_choice_def others_def strict_sorted_iff)

section \<open>Evaluation on the example pools\<close>

text \<open>
  The functions as folds over the list of combinations, used to evaluate them on the
  example pools.
\<close>

lemma FindBestTeamSplit_ext_fold:
  assumes "length sel = n"
  shows "FindBestTeamSplit_ext sel ts ft adm lvl msk =
    (if n < ts * 2
     then \<lparr>valid = False, team1Indices = [], team2Indices = [], mmrDiff = 0\<rparr>
     else
       let b = foldl (\<lambda>b c. Enumerate_ext_leaf c sel ts n ft adm lvl msk b)
                 \<lparr>bestTeam1 = [], haveBest = False, bestDiff = 0\<rparr> (combs ts 0 n)
       in if \<not> haveBest b
          then \<lparr>valid = False, team1Indices = [], team2Indices = [], mmrDiff = 0\<rparr>
          else \<lparr>valid = True, team1Indices = bestTeam1 b,
                 team2Indices = complement n (length (bestTeam1 b)) (bestTeam1 b),
                 mmrDiff = bestDiff b\<rparr>)"
  unfolding FindBestTeamSplit_ext_def Let_def case_prod_unfold Enumerate_ext_gen enum_gen_top
    assms
  by (rule refl)


lemma combs_1_3: "combs 1 0 3 = [[0], [1], [2]]"
  by (simp add: eval_nat_numeral upt_rec)

lemma combs_2_4: "combs 2 0 4 = [[0, 1], [0, 2], [0, 3], [1, 2], [1, 3], [2, 3]]"
  by (simp add: eval_nat_numeral upt_rec)

lemma combs_3_6: "combs 3 0 6 =
  [[0, 1, 2], [0, 1, 3], [0, 1, 4], [0, 1, 5], [0, 2, 3], [0, 2, 4], [0, 2, 5], [0, 3, 4],
   [0, 3, 5], [0, 4, 5], [1, 2, 3], [1, 2, 4], [1, 2, 5], [1, 3, 4], [1, 3, 5], [1, 4, 5],
   [2, 3, 4], [2, 3, 5], [2, 4, 5], [3, 4, 5]]"
  by (simp add: eval_nat_numeral upt_rec)

lemmas eval_defs = Enumerate_ext_leaf_def complement_def count_healers_def sum_mmr_def mk_def
  upt_rec Let_def stacking_pair_def ClassIdToMaskBit_def


lemma split_pool6: "FindBestTeamSplit pool6 3 True False
  = \<lparr>valid = True, team1Indices = [0, 2, 3], team2Indices = [1, 4, 5], mmrDiff = 1000\<rparr>"
proof -
  have len: "length pool6 = 6" by (simp add: pool6_def)
  show ?thesis
    apply (simp only: FindBestTeamSplit_ext_0 [where msk = 0] FindBestTeamSplit_ext_fold [OF len]
        combs_3_6 foldl.simps)
    apply (simp add: eval_defs pool6_def)
    done
qed

lemma split_pool3: "FindBestTeamSplit pool3 1 False False
  = \<lparr>valid = True, team1Indices = [0], team2Indices = [1, 2], mmrDiff = 1500\<rparr>"
proof -
  have len: "length pool3 = 3" by (simp add: pool3_def)
  show ?thesis
    apply (simp only: FindBestTeamSplit_ext_0 [where msk = 0] FindBestTeamSplit_ext_fold [OF len]
        combs_1_3 foldl.simps)
    apply (simp add: eval_defs pool3_def)
    done
qed

lemma split_pool4_level5: "FindBestTeamSplit_ext pool4 2 False False 5 0
  = \<lparr>valid = False, team1Indices = [], team2Indices = [], mmrDiff = 0\<rparr>"
proof -
  have len: "length pool4 = 4" by (simp add: pool4_def)
  show ?thesis
    apply (simp only: FindBestTeamSplit_ext_fold [OF len] combs_2_4 foldl.simps)
    apply (simp add: eval_defs pool4_def)
    done
qed

lemma split_pool4_level0: "FindBestTeamSplit_ext pool4 2 False False 0 0
  = \<lparr>valid = True, team1Indices = [0, 1], team2Indices = [2, 3], mmrDiff = 0\<rparr>"
proof -
  have len: "length pool4 = 4" by (simp add: pool4_def)
  show ?thesis
    apply (simp only: FindBestTeamSplit_ext_fold [OF len] combs_2_4 foldl.simps)
    apply (simp add: eval_defs pool4_def)
    done
qed




section \<open>The team split: the properties\<close>

text \<open>
  A valid result of either revision: team 1 is a choice of \<open>teamSize\<close> indices and team 2
  is the list of the other indices.
\<close>

lemma split_valid_either:
  assumes "r = FindBestTeamSplit selected teamSize ft adm
         \<or> r = FindBestTeamSplit_ext selected teamSize ft adm lvl msk"
    and "valid r"
  shows "2 * teamSize \<le> length selected
       \<and> team_choice (length selected) teamSize (team1Indices r)
       \<and> team2Indices r = others (length selected) (team1Indices r)"
proof -
  from assms(1) obtain l m where "r = FindBestTeamSplit_ext selected teamSize ft adm l m"
    using FindBestTeamSplit_ext_0 [of selected teamSize ft adm msk] by metis
  then show ?thesis using split_ext_valid [OF _ assms(2)] by blast
qed

text \<open>
  Claim C6 (complement correctness). Whenever \<open>FindBestTeamSplit\<close> returns a valid result
  for a list of \<open>n\<close> candidates, \<open>team1Indices\<close> and \<open>team2Indices\<close> are disjoint and their
  union is exactly the index range \<open>[0, n)\<close>. It holds of both revisions.
\<close>

theorem split_complement:
  assumes "r = FindBestTeamSplit selected teamSize filterTalents allDpsMatch
         \<or> r = FindBestTeamSplit_ext selected teamSize filterTalents allDpsMatch lvl msk"
    and "valid r"
  shows "set (team1Indices r) \<inter> set (team2Indices r) = {}
       \<and> set (team1Indices r) \<union> set (team2Indices r) = {0 ..< length selected}"
proof -
  note v = split_valid_either [OF assms]
  then have tc: "team_choice (length selected) teamSize (team1Indices r)" by blast
  show ?thesis using others_partition(1,2) [OF tc] v by simp
qed

text \<open>
  Scenario 6 of the specification: healers rated 2000 and 1000 and four DPS rated 1500.
\<close>

theorem split_complement_witness:
  "valid (FindBestTeamSplit pool6 3 True False)
   \<and> set (team1Indices (FindBestTeamSplit pool6 3 True False))
       \<inter> set (team2Indices (FindBestTeamSplit pool6 3 True False)) = {}
   \<and> set (team1Indices (FindBestTeamSplit pool6 3 True False))
       \<union> set (team2Indices (FindBestTeamSplit pool6 3 True False)) = {0 ..< length pool6}"
proof -
  have v: "valid (FindBestTeamSplit pool6 3 True False)" by (simp add: split_pool6)
  show ?thesis
    using v split_complement [OF disjI1 [OF refl] v] by blast
qed

text \<open>
  Claim C5 (team sizes), as the code has it. In a valid result \<open>team1Indices\<close> has exactly
  \<open>teamSize\<close> entries, \<open>team2Indices\<close> has the remaining \<open>n - teamSize\<close>, and together they
  partition \<open>[0, n)\<close>, where \<open>n\<close> is the length of the selected list; when \<open>n\<close> is exactly
  \<open>2 * teamSize\<close>, each team has \<open>teamSize\<close> entries and they partition
  \<open>[0, 2 * teamSize)\<close>. It holds of both revisions.
\<close>

theorem split_team_sizes:
  assumes "r = FindBestTeamSplit selected teamSize filterTalents allDpsMatch
         \<or> r = FindBestTeamSplit_ext selected teamSize filterTalents allDpsMatch lvl msk"
    and "valid r"
  shows "length (team1Indices r) = teamSize
       \<and> length (team2Indices r) = length selected - teamSize
       \<and> distinct (team1Indices r @ team2Indices r)
       \<and> set (team1Indices r @ team2Indices r) = {0 ..< length selected}
       \<and> (length selected = 2 * teamSize \<longrightarrow>
            length (team2Indices r) = teamSize
            \<and> set (team1Indices r @ team2Indices r) = {0 ..< 2 * teamSize})"
proof -
  note v = split_valid_either [OF assms]
  then have tc: "team_choice (length selected) teamSize (team1Indices r)" by blast
  have t2: "team2Indices r = others (length selected) (team1Indices r)" using v by blast
  have "length (team1Indices r) = teamSize" using tc by (simp add: team_choice_def)
  moreover have "length (team2Indices r) = length selected - teamSize"
    using others_partition(5) [OF tc] t2 by simp
  moreover have "distinct (team1Indices r @ team2Indices r)"
    using others_partition(1,3,4) [OF tc] t2 by simp
  moreover have "set (team1Indices r @ team2Indices r) = {0 ..< length selected}"
    using others_partition(2) [OF tc] t2 by simp
  ultimately show ?thesis by auto
qed

text \<open>
  Scenario 6 again: six candidates, two teams of three.
\<close>

theorem split_team_sizes_witness:
  "valid (FindBestTeamSplit pool6 3 True False)
   \<and> length pool6 = 2 * 3
   \<and> length (team1Indices (FindBestTeamSplit pool6 3 True False)) = 3
   \<and> length (team2Indices (FindBestTeamSplit pool6 3 True False)) = 3
   \<and> set (team1Indices (FindBestTeamSplit pool6 3 True False)
          @ team2Indices (FindBestTeamSplit pool6 3 True False)) = {0 ..< 2 * 3}"
proof -
  have v: "valid (FindBestTeamSplit pool6 3 True False)" by (simp add: split_pool6)
  have l: "length pool6 = 2 * 3" by (simp add: pool6_def)
  show ?thesis
    using v l split_team_sizes [OF disjI1 [OF refl] v] by simp
qed

text \<open>
  The claim as the specification words it (for every list with at least \<open>2 * teamSize\<close>
  entries) fails on a longer list: three candidates and a team size of 1 give a valid
  result whose second team has two members.
\<close>

theorem split_team_sizes_counterexample:
  "2 * 1 \<le> length pool3
   \<and> valid (FindBestTeamSplit pool3 1 False False)
   \<and> team1Indices (FindBestTeamSplit pool3 1 False False) = [0]
   \<and> team2Indices (FindBestTeamSplit pool3 1 False False) = [1, 2]
   \<and> length (team2Indices (FindBestTeamSplit pool3 1 False False)) \<noteq> 1"
proof -
  have len: "2 * 1 \<le> length pool3" by (simp add: pool3_def)
  show ?thesis unfolding split_pool3 using len by simp
qed






text \<open>
  A team has a class-stacking conflict exactly when one of its pairs is a stacking pair.
\<close>

lemma conflict_with_iff:
  "conflict_with a js pool lvl msk \<longleftrightarrow> (\<exists>j \<in> set js. stacking_pair a (pool ! j) lvl msk)"
  by (induction js) auto

lemma conflict_with_nth:
  "conflict_with a js pool lvl msk
     \<longleftrightarrow> (\<exists>j < length js. stacking_pair a (pool ! (js ! j)) lvl msk)"
  unfolding conflict_with_iff Bex_def in_set_conv_nth by blast

lemma HasClassStackingConflict_iff:
  "HasClassStackingConflict team pool lvl msk
     \<longleftrightarrow> (\<exists>i j. i < j \<and> j < length team
               \<and> stacking_pair (pool ! (team ! i)) (pool ! (team ! j)) lvl msk)"
proof (induction team)
  case Nil
  then show ?case by simp
next
  case (Cons x xs)
  have "(\<exists>i j. i < j \<and> j < length (x # xs)
               \<and> stacking_pair (pool ! ((x # xs) ! i)) (pool ! ((x # xs) ! j)) lvl msk)
     \<longleftrightarrow> (\<exists>j < length xs. stacking_pair (pool ! x) (pool ! (xs ! j)) lvl msk)
       \<or> (\<exists>i j. i < j \<and> j < length xs
               \<and> stacking_pair (pool ! (xs ! i)) (pool ! (xs ! j)) lvl msk)"
    (is "?L \<longleftrightarrow> ?A \<or> ?B")
  proof
    assume ?L
    then obtain i j where ij: "i < j" "j < length (x # xs)"
      "stacking_pair (pool ! ((x # xs) ! i)) (pool ! ((x # xs) ! j)) lvl msk" by blast
    then obtain j' where j: "j = Suc j'" by (cases j) auto
    show "?A \<or> ?B"
    proof (cases i)
      case 0
      then have ?A using ij j by auto
      then show ?thesis ..
    next
      case (Suc i')
      then have "i' < j' \<and> j' < length xs
          \<and> stacking_pair (pool ! (xs ! i')) (pool ! (xs ! j')) lvl msk"
        using ij j by simp
      then have ?B by blast
      then show ?thesis ..
    qed
  next
    assume "?A \<or> ?B"
    then show ?L
    proof
      assume ?A
      then obtain j where "j < length xs" "stacking_pair (pool ! x) (pool ! (xs ! j)) lvl msk"
        by blast
      then have "0 < Suc j \<and> Suc j < length (x # xs)
          \<and> stacking_pair (pool ! ((x # xs) ! 0)) (pool ! ((x # xs) ! Suc j)) lvl msk"
        by simp
      then show ?L by blast
    next
      assume ?B
      then obtain i j where "i < j" "j < length xs"
        "stacking_pair (pool ! (xs ! i)) (pool ! (xs ! j)) lvl msk" by blast
      then have "Suc i < Suc j \<and> Suc j < length (x # xs)
          \<and> stacking_pair (pool ! ((x # xs) ! Suc i)) (pool ! ((x # xs) ! Suc j)) lvl msk"
        by simp
      then show ?L by blast
    qed
  qed
  moreover have "HasClassStackingConflict (x # xs) pool lvl msk
      \<longleftrightarrow> conflict_with (pool ! x) xs pool lvl msk \<or> HasClassStackingConflict xs pool lvl msk"
    by simp
  ultimately show ?case unfolding conflict_with_nth Cons.IH by (rule ssubst)
qed

text \<open>
  At levels 5 and 6 the role test of the source, \<^verbatim>\<open>(aIsMelee || aIsHealer) && (bIsMelee || bIsHealer)\<close>,
  holds of every pair, as a role is either DPS or HEALER.
\<close>

lemma stacking_pair_healer_levels:
  assumes "lvl = 5 \<or> lvl = 6"
  shows "stacking_pair a b lvl msk
     \<longleftrightarrow> classId a = classId b \<and> (msk = 0 \<or> msk AND ClassIdToMaskBit (classId a) \<noteq> 0)"
proof -
  have a: "role a = DPS \<or> role a = HEALER" by (cases "role a") simp_all
  have b: "role b = DPS \<or> role b = HEALER" by (cases "role b") simp_all
  show ?thesis using assms a b by (auto simp: stacking_pair_def)
qed

text \<open>
  Claim C3 (levels 5 and 6), as the code has it. Under class-stacking levels 5 and 6 a
  same-team pair of candidates with the same class tag, the class being selected by the
  mask (the mask is 0 or has the class's bit), invalidates the partition whatever the roles
  of the two candidates: a pair with a healer does, and so does a pair of two DPS. The
  leaf of the search hands the search results back unchanged.
\<close>

theorem healer_levels_block_every_pair:
  assumes "lvl = 5 \<or> lvl = 6"
    and "i < j" and "j < length team"
    and "classId (selected ! (team ! i)) = classId (selected ! (team ! j))"
    and "msk = 0 \<or> msk AND ClassIdToMaskBit (classId (selected ! (team ! i))) \<noteq> 0"
    and "team = combo \<or> team = complement n teamSize combo"
  shows "HasClassStackingConflict team selected lvl msk
       \<and> Enumerate_ext_leaf combo selected teamSize n filterTalents allDpsMatch lvl msk b = b"
proof -
  have "stacking_pair (selected ! (team ! i)) (selected ! (team ! j)) lvl msk"
    using assms(1,4,5) by (simp add: stacking_pair_healer_levels)
  then have c: "HasClassStackingConflict team selected lvl msk"
    unfolding HasClassStackingConflict_iff using assms(2,3) by blast
  have "0 < lvl" using assms(1) by auto
  then have "\<not> class_diversity_ok selected lvl msk combo (complement n teamSize combo)"
    using c assms(6) by (auto simp: class_diversity_ok_def)
  then show ?thesis using c by (simp add: Enumerate_ext_leaf_alt)
qed

text \<open>
  Four DPS of class 1 (warriors), team size 2, level 5, no mask: the pair of the team
  \<open>[0, 1]\<close> is a conflict, and the leaf discards the partition.
\<close>

theorem healer_levels_block_every_pair_witness:
  "(0::nat) < 1 \<and> (1::nat) < length [0, 1::nat]
   \<and> role (pool4 ! 0) = DPS \<and> role (pool4 ! 1) = DPS
   \<and> classId (pool4 ! ([0, 1] ! 0)) = classId (pool4 ! ([0, 1] ! 1))
   \<and> HasClassStackingConflict [0, 1] pool4 5 0
   \<and> Enumerate_ext_leaf [0, 1] pool4 2 4 False False 5 0
        \<lparr>bestTeam1 = [], haveBest = False, bestDiff = 0\<rparr>
       = \<lparr>bestTeam1 = [], haveBest = False, bestDiff = 0\<rparr>"
proof -
  have h: "(0::nat) < 1" "(1::nat) < length [0, 1::nat]" by simp_all
  have r: "role (pool4 ! 0) = DPS \<and> role (pool4 ! 1) = DPS" by (simp add: pool4_def mk_def)
  have c: "classId (pool4 ! ([0, 1] ! 0)) = classId (pool4 ! ([0, 1] ! 1))"
    by (simp add: pool4_def mk_def)
  have "HasClassStackingConflict [0, 1] pool4 5 0
       \<and> Enumerate_ext_leaf [0, 1] pool4 2 4 False False 5 0
            \<lparr>bestTeam1 = [], haveBest = False, bestDiff = 0\<rparr>
           = \<lparr>bestTeam1 = [], haveBest = False, bestDiff = 0\<rparr>"
    by (rule healer_levels_block_every_pair [of 5 0 1 "[0, 1]" pool4 0 "[0, 1]"])
      (simp_all add: pool4_def mk_def)
  then show ?thesis using h r c by blast
qed

text \<open>
  The claim as the specification words it fails on two DPS of the same class: at levels 5
  and 6 the pair is a conflict, and with four such DPS no partition is left, while with
  class stacking off the split is valid.
\<close>

theorem healer_levels_counterexample:
  "role (pool4 ! 0) = DPS \<and> role (pool4 ! 1) = DPS
   \<and> classId (pool4 ! 0) = classId (pool4 ! 1) \<and> classId (pool4 ! 0) \<noteq> 0
   \<and> HasClassStackingConflict [0, 1] pool4 5 0
   \<and> HasClassStackingConflict [0, 1] pool4 6 0
   \<and> \<not> valid (FindBestTeamSplit_ext pool4 2 False False 5 0)
   \<and> valid (FindBestTeamSplit_ext pool4 2 False False 0 0)"
proof -
  have "HasClassStackingConflict [0, 1] pool4 5 0" "HasClassStackingConflict [0, 1] pool4 6 0"
    by (simp_all add: pool4_def mk_def stacking_pair_def)
  then show ?thesis
    unfolding split_pool4_level5 split_pool4_level0 by (simp add: pool4_def mk_def)
qed

end
